theory Spec2Isabelle
  imports Complex_Main "HOL-Library.AList"
begin

text \<open>
  A model of the Visitor of \<^verbatim>\<open>src/index.ts\<close>: its constructor and the configuration it
  shares, the recording of a pageview hit, the planning of dispatch units and \<^verbatim>\<open>send\<close>.
  State that the code mutates is passed explicitly; the calls of \<^verbatim>\<open>debug\<close> and the check of
  the parameters that runs under it only log and are left out.
\<close>

section \<open>JavaScript values and parameter objects\<close>

text \<open>
  The values that occur in a parameter object of \<^verbatim>\<open>src/index.ts\<close>: a string, or one of the
  two empty values \<^verbatim>\<open>null\<close> and \<^verbatim>\<open>undefined\<close>.  A key can be present with the value
  \<^verbatim>\<open>undefined\<close>, which is different from the key being absent, so an object is an association
  list in insertion order (the order in which \<^verbatim>\<open>for (key in obj)\<close> visits string keys).
\<close>

datatype jsval = Undefined | Null | Str string

type_synonym ArbitraryParams = "(string \<times> jsval) list"
type_synonym VisitorContext = "(string \<times> jsval) list"
type_synonym PersistentParams = "(string \<times> jsval) list"

text \<open>Truthiness, as \<^verbatim>\<open>a || b\<close> tests it: the empty string, null and undefined are falsy.\<close>

fun truthy :: "jsval \<Rightarrow> bool" where
  "truthy (Str s) = (s \<noteq> [])"
| "truthy Null = False"
| "truthy Undefined = False"

definition js_or :: "jsval \<Rightarrow> jsval \<Rightarrow> jsval" where
  "js_or a b = (if truthy a then a else b)"

text \<open>\<^verbatim>\<open>obj[key]\<close>: a missing key reads as undefined.\<close>

definition get_prop :: "(string \<times> jsval) list \<Rightarrow> string \<Rightarrow> jsval" where
  "get_prop obj k = (case map_of obj k of None \<Rightarrow> Undefined | Some x \<Rightarrow> x)"

text \<open>\<^verbatim>\<open>obj[key] = value\<close>: an existing key keeps its place, a new key goes last.\<close>

definition put :: "string \<Rightarrow> jsval \<Rightarrow> (string \<times> jsval) list \<Rightarrow> (string \<times> jsval) list" where
  "put k x obj = AList.update k x obj"

text \<open>\<^verbatim>\<open>Object.assign(target, source)\<close>: every own property of the source is written into
  the target, in the source's order; a property whose value is undefined is written too.\<close>

definition assign ::
  "(string \<times> jsval) list \<Rightarrow> (string \<times> jsval) list \<Rightarrow> (string \<times> jsval) list" where
  "assign target source = fold (\<lambda>(k, x). put k x) source target"

text \<open>A source that is \<^verbatim>\<open>undefined\<close> (an omitted \<^verbatim>\<open>params\<close>) is skipped by
  \<^verbatim>\<open>Object.assign\<close>.\<close>

definition assign_opt ::
  "(string \<times> jsval) list \<Rightarrow> (string \<times> jsval) list option \<Rightarrow> (string \<times> jsval) list" where
  "assign_opt target source = (case source of None \<Rightarrow> target | Some s \<Rightarrow> assign target s)"

section \<open>Configuration, options and the store\<close>

text \<open>
  \<^verbatim>\<open>config\<close> is the module-level object imported from \<^verbatim>\<open>./config\<close>: one object for the
  whole process.  Nothing is assumed about its initial contents: every field is whatever
  the current state holds.  The batch size is an integer, of any sign.
\<close>

record config =
  c_hostname :: string
  c_path :: string
  c_batchPath :: string
  c_batching :: bool
  c_batchSize :: int
  c_protocolVersion :: string
  c_parametersMap :: "(string \<times> string) list"

text \<open>\<^verbatim>\<open>VisitorOptions\<close>.  An optional field that is tested with \<^verbatim>\<open>!= null\<close> is an
  option (\<open>None\<close> for undefined or null); the three identity fields are copied into hits as
  they are and so are values.\<close>

record VisitorOptions =
  o_tid :: jsval
  o_cid :: jsval
  o_uid :: jsval
  o_hostname :: "string option"
  o_path :: "string option"
  o_https :: "bool option"
  o_enableBatching :: "bool option"
  o_batchSize :: "int option"
  o_debug :: "bool option"
  o_strictCidFormat :: "bool option"
  o_requestOptions :: "(string \<times> string) list option"
  o_headers :: "(string \<times> string) list option"

text \<open>The options object \<^verbatim>\<open>{}\<close>, which is also what an omitted argument defaults to.\<close>

definition no_options :: VisitorOptions where
  "no_options =
     \<lparr>o_tid = Undefined, o_cid = Undefined, o_uid = Undefined, o_hostname = None,
      o_path = None, o_https = None, o_enableBatching = None, o_batchSize = None,
      o_debug = None, o_strictCidFormat = None, o_requestOptions = None, o_headers = None\<rparr>"

text \<open>
  The collaborators of the module: \<^verbatim>\<open>uuid.v4()\<close> (its \<open>n\<close>-th result),
  \<^verbatim>\<open>url.parse(s).host\<close> (\<open>None\<close> for the \<^verbatim>\<open>null\<close> of a string without a host) and
  \<^verbatim>\<open>querystring.stringify\<close>.
\<close>

record env =
  uuid_v4 :: "nat \<Rightarrow> string"
  url_host :: "string \<Rightarrow> string option"
  stringify :: "ArbitraryParams \<Rightarrow> string"

text \<open>
  Arrays and objects that are shared by reference live in a store.  A queue is an array of
  hits; a Visitor holds the address of its queue and of its persistent parameters.
\<close>

type_synonym ref = nat

record world =
  cfg :: config
  queues :: "ref \<Rightarrow> ArbitraryParams list"
  persistents :: "ref \<Rightarrow> PersistentParams"
  next_ref :: ref
  uuid_calls :: nat

record Visitor =
  v_options :: "VisitorOptions option"
  v_context :: VisitorContext
  v_persistentParams :: ref
  v_queue :: ref
  v_tid :: jsval
  v_cid :: jsval
  v_uid :: jsval

section \<open>The Visitor\<close>

text \<open>How a template string prints \<^verbatim>\<open>parsedHostname.host\<close>.\<close>

definition host_text :: "string option \<Rightarrow> string" where
  "host_text h = (case h of None \<Rightarrow> ''null'' | Some s \<Rightarrow> s)"

text \<open>The four conditional writes to the shared \<^verbatim>\<open>config\<close>, then the rewrite of its
  hostname.\<close>

definition configure :: "env \<Rightarrow> VisitorOptions \<Rightarrow> config \<Rightarrow> config" where
  "configure E options c =
     (let c1 = (case o_hostname options of None \<Rightarrow> c | Some h \<Rightarrow> c\<lparr>c_hostname := h\<rparr>);
          c2 = (case o_path options of None \<Rightarrow> c1 | Some p \<Rightarrow> c1\<lparr>c_path := p\<rparr>);
          c3 = (case o_enableBatching options of None \<Rightarrow> c2 | Some b \<Rightarrow> c2\<lparr>c_batching := b\<rparr>);
          c4 = (case o_batchSize options of None \<Rightarrow> c3 | Some n \<Rightarrow> c3\<lparr>c_batchSize := n\<rparr>);
          protocol = (if o_https options = Some False then ''http'' else ''https'')
      in c4\<lparr>c_hostname := protocol @ ''://'' @ host_text (url_host E (c_hostname c4))\<rparr>)"

text \<open>
  The constructor, with its four parameters already bound.  \<open>None\<close> for the options is
  \<^verbatim>\<open>null\<close>: the constructor returns at once and the identity fields stay undefined.
\<close>

definition Visitor_new ::
  "env \<Rightarrow> VisitorOptions option \<Rightarrow> VisitorContext \<Rightarrow> ref \<Rightarrow> ref \<Rightarrow> world \<Rightarrow> Visitor \<times> world" where
  "Visitor_new E options context persistentParams queue w =
     (case options of
        None \<Rightarrow>
          (\<lparr>v_options = None, v_context = context, v_persistentParams = persistentParams,
            v_queue = queue, v_tid = Undefined, v_cid = Undefined, v_uid = Undefined\<rparr>, w)
      | Some opts \<Rightarrow>
          (let w1 = w\<lparr>cfg := configure E opts (cfg w)\<rparr>;
               (cid, w2) =
                 (if truthy (o_cid opts) then (o_cid opts, w1)
                  else (Str (uuid_v4 E (uuid_calls w1)), w1\<lparr>uuid_calls := Suc (uuid_calls w1)\<rparr>))
           in (\<lparr>v_options = Some opts, v_context = context,
                 v_persistentParams = persistentParams, v_queue = queue,
                 v_tid = o_tid opts, v_cid = cid, v_uid = o_uid opts\<rparr>, w2)))"

text \<open>\<^verbatim>\<open>init(options)\<close> is \<^verbatim>\<open>new Visitor(options)\<close>: the other three parameters take their
  defaults, a fresh \<^verbatim>\<open>{}\<close> for the context and for the persistent parameters and a fresh
  \<^verbatim>\<open>[]\<close> for the queue.  \<^verbatim>\<open>init()\<close> is \<open>init E (Some no_options)\<close>.\<close>

definition init :: "env \<Rightarrow> VisitorOptions option \<Rightarrow> world \<Rightarrow> Visitor \<times> world" where
  "init E options w =
     (let pp = next_ref w; q = Suc (next_ref w);
          w1 = w\<lparr>queues := (queues w)(q := []), persistents := (persistents w)(pp := []),
                 next_ref := Suc (Suc (next_ref w))\<rparr>
      in Visitor_new E options [] pp q w1)"

definition reset :: "Visitor \<Rightarrow> Visitor" where
  "reset v = v\<lparr>v_context := []\<rparr>"

definition set_param :: "Visitor \<Rightarrow> string \<Rightarrow> jsval \<Rightarrow> world \<Rightarrow> world" where
  "set_param v key val w =
     w\<lparr>persistents := (persistents w)
          (v_persistentParams v := put key val (persistents w (v_persistentParams v)))\<rparr>"

text \<open>\<^verbatim>\<open>withContext\<close>: a new Visitor from the same options, the same persistent parameters
  and the same queue; an undefined context takes the constructor's default \<^verbatim>\<open>{}\<close>.\<close>

definition withContext ::
  "env \<Rightarrow> Visitor \<Rightarrow> VisitorContext option \<Rightarrow> world \<Rightarrow> Visitor \<times> world" where
  "withContext E v context w =
     Visitor_new E (v_options v) (case context of None \<Rightarrow> [] | Some c \<Rightarrow> c)
       (v_persistentParams v) (v_queue v) w"

text \<open>\<^verbatim>\<open>translateParams\<close>: the loop over the keys, writing each value under its mapped
  name.\<close>

definition translate_key :: "(string \<times> string) list \<Rightarrow> string \<Rightarrow> string" where
  "translate_key parametersMap key =
     (case map_of parametersMap key of Some k' \<Rightarrow> k' | None \<Rightarrow> key)"

definition translateParams :: "(string \<times> string) list \<Rightarrow> ArbitraryParams \<Rightarrow> ArbitraryParams" where
  "translateParams parametersMap params =
     fold (\<lambda>key translated. put (translate_key parametersMap key) (get_prop params key) translated)
       (map fst params) []"

text \<open>\<^verbatim>\<open>tidyParameters\<close>: the loop over the keys, deleting each key whose value is null or
  undefined.\<close>

definition tidyParameters :: "ArbitraryParams \<Rightarrow> ArbitraryParams" where
  "tidyParameters params =
     fold (\<lambda>param ps. if get_prop ps param = Null \<or> get_prop ps param = Undefined
                       then AList.delete param ps else ps)
       (map fst params) params"

section \<open>Planning the dispatch units\<close>

text \<open>An element of the task queue is \<^verbatim>\<open>ArbitraryParams | ArbitraryParamsBatch\<close>: one hit, or
  an array of hits.\<close>

datatype task = Single ArbitraryParams | Batch "ArbitraryParams list"

fun unit_hits :: "task \<Rightarrow> ArbitraryParams list" where
  "unit_hits (Single h) = [h]"
| "unit_hits (Batch hs) = hs"

text \<open>\<^verbatim>\<open>queue.splice(0, n)\<close>: the removed prefix and what is left; a negative count removes
  nothing.\<close>

definition splice0 :: "int \<Rightarrow> 'a list \<Rightarrow> 'a list \<times> 'a list" where
  "splice0 n xs = (take (nat n) xs, drop (nat n) xs)"

definition getNextSendBatch ::
  "int \<Rightarrow> ArbitraryParams list \<Rightarrow> ArbitraryParams list \<times> ArbitraryParams list" where
  "getNextSendBatch batchSize queue =
     (let maxBatchSize = min (int (length queue)) batchSize in splice0 maxBatchSize queue)"

text \<open>
  \<^verbatim>\<open>Math.ceil(queue.length / config.batchSize)\<close>, the bound of the loop.  Over the integers
  the quotient of a length by a non-zero size has ceiling \<open>- ((- n) div b)\<close>.  A size of zero
  gives \<^verbatim>\<open>NaN\<close> for an empty queue, and then \<^verbatim>\<open>i < nBuckets\<close> is false at once as it is for
  the bound 0, and \<^verbatim>\<open>Infinity\<close> otherwise (\<open>None\<close>): the loop then never ends.
\<close>

definition nBuckets :: "nat \<Rightarrow> int \<Rightarrow> int option" where
  "nBuckets len batchSize =
     (if batchSize = 0 then (if len = 0 then Some 0 else None)
      else Some (- ((- int len) div batchSize)))"

text \<open>The \<^verbatim>\<open>for\<close> loop, by the number of rounds still to run: each round pushes the next
  batch.\<close>

fun fill_buckets ::
  "nat \<Rightarrow> int \<Rightarrow> ArbitraryParams list \<Rightarrow> ArbitraryParams list list
     \<Rightarrow> ArbitraryParams list list \<times> ArbitraryParams list" where
  "fill_buckets 0 batchSize queue q = (q, queue)"
| "fill_buckets (Suc n) batchSize queue q =
     (let (bucket, queue') = getNextSendBatch batchSize queue
      in fill_buckets n batchSize queue' (q @ [bucket]))"

text \<open>\<^verbatim>\<open>getSendTaskQueue\<close> on the contents of the queue: the task queue and what is left in
  the queue; \<open>None\<close> when the loop never ends.\<close>

definition plan ::
  "config \<Rightarrow> ArbitraryParams list \<Rightarrow> (task list \<times> ArbitraryParams list) option" where
  "plan c queue =
     (if \<not> c_batching c then Some (map Single (fst (splice0 (int (length queue)) queue)),
                                    snd (splice0 (int (length queue)) queue))
      else (case nBuckets (length queue) (c_batchSize c) of
              None \<Rightarrow> None
            | Some n \<Rightarrow>
                (let (q, queue') = fill_buckets (nat n) (c_batchSize c) queue []
                 in Some (map Batch (filter (\<lambda>bucket. length bucket > 0) q), queue'))))"

definition getSendTaskQueue :: "Visitor \<Rightarrow> world \<Rightarrow> (task list \<times> world) option" where
  "getSendTaskQueue v w =
     (case plan (cfg w) (queues w (v_queue v)) of
        None \<Rightarrow> None
      | Some (tasks, queue') \<Rightarrow> Some (tasks, w\<lparr>queues := (queues w)(v_queue v := queue')\<rparr>))"

section \<open>Recording a hit\<close>

datatype MetricType = PAGEVIEW

fun metric_name :: "MetricType \<Rightarrow> string" where
  "metric_name PAGEVIEW = ''pageview''"

text \<open>The object literal \<^verbatim>\<open>defaults\<close> of \<^verbatim>\<open>enqueue\<close>: five keys, each with whatever value
  the Visitor holds.\<close>

definition defaults :: "config \<Rightarrow> Visitor \<Rightarrow> MetricType \<Rightarrow> ArbitraryParams" where
  "defaults c v t =
     [(''v'', Str (c_protocolVersion c)), (''tid'', v_tid v), (''cid'', v_cid v),
      (''uid'', v_uid v), (''t'', Str (metric_name t))]"

text \<open>The hit that \<^verbatim>\<open>enqueue\<close> pushes: the translated parameters with the defaults
  assigned over them.\<close>

definition make_hit :: "config \<Rightarrow> Visitor \<Rightarrow> MetricType \<Rightarrow> ArbitraryParams \<Rightarrow> ArbitraryParams" where
  "make_hit c v t p = assign (translateParams (c_parametersMap c) p) (defaults c v t)"

definition push_hit :: "Visitor \<Rightarrow> ArbitraryParams \<Rightarrow> world \<Rightarrow> world" where
  "push_hit v h w = w\<lparr>queues := (queues w)(v_queue v := queues w (v_queue v) @ [h])\<rparr>"

section \<open>Sending\<close>

text \<open>What \<^verbatim>\<open>request.post\<close> is called with: the target, and the options object made of the
  Visitor's \<^verbatim>\<open>requestOptions\<close> with \<^verbatim>\<open>body\<close> and \<^verbatim>\<open>headers\<close> written over them.\<close>

record request =
  r_url :: string
  r_body :: string
  r_headers :: "(string \<times> string) list"
  r_requestOptions :: "(string \<times> string) list"

text \<open>The messages of the two \<^verbatim>\<open>TypeError\<close>s that the promise executor of \<^verbatim>\<open>send\<close> can
  throw (their wording is the engine's).\<close>

definition map_is_not_a_function :: string where
  "map_is_not_a_function = ''params.map is not a function''"

definition options_is_null :: string where
  "options_is_null = ''Cannot read property requestOptions of null''"

definition join :: "string \<Rightarrow> string list \<Rightarrow> string" where
  "join sep xs = (case xs of [] \<Rightarrow> [] | y # ys \<Rightarrow> fold (\<lambda>x acc. acc @ sep @ x) ys y)"

text \<open>
  \<^verbatim>\<open>getBody\<close> calls \<^verbatim>\<open>params.map(...)\<close>.  On an array of hits that is the hits' query
  strings joined by a newline.  A single hit is a plain object of string values: it has no
  callable \<^verbatim>\<open>map\<close>, and the call throws a \<^verbatim>\<open>TypeError\<close> (\<open>Inl\<close>, with its message).
\<close>

fun getBody :: "env \<Rightarrow> task \<Rightarrow> string + string" where
  "getBody E (Batch params) = Inr (join [CHR 0x0A] (map (stringify E) params))"
| "getBody E (Single params) = Inl map_is_not_a_function"

text \<open>
  The promise executor of one task, up to the call of \<^verbatim>\<open>request.post\<close>: either it throws
  (\<open>Inl\<close>, which rejects the task's promise) or it issues a POST (\<open>Inr\<close>).  The arguments of
  \<^verbatim>\<open>Object.assign\<close> are evaluated in order, so \<^verbatim>\<open>this.options.requestOptions\<close> of a
  Visitor built from \<^verbatim>\<open>null\<close> options throws before \<^verbatim>\<open>getBody\<close> runs.
\<close>

definition executor :: "env \<Rightarrow> Visitor \<Rightarrow> string \<Rightarrow> task \<Rightarrow> string + request" where
  "executor E v path t =
     (case v_options v of
        None \<Rightarrow> Inl options_is_null
      | Some opts \<Rightarrow>
          (case getBody E t of
             Inl m \<Rightarrow> Inl m
           | Inr body \<Rightarrow>
               Inr \<lparr>r_url = path, r_body = body,
                    r_headers = (case o_headers opts of None \<Rightarrow> [] | Some h \<Rightarrow> h),
                    r_requestOptions = (case o_requestOptions opts of None \<Rightarrow> [] | Some ro \<Rightarrow> ro)\<rparr>))"

text \<open>
  What \<^verbatim>\<open>send\<close> keeps while its requests are under way: the variable \<^verbatim>\<open>count\<close>; the reason
  of the first rejected task promise, which is what \<^verbatim>\<open>Promise.all\<close> rejects with; the number
  of fulfilled task promises; and the number of POSTs whose callback has not run yet.
\<close>

record send_state =
  s_count :: nat
  s_rejected :: "string option"
  s_fulfilled :: nat
  s_inflight :: nat

definition reject :: "string \<Rightarrow> send_state \<Rightarrow> send_state" where
  "reject m s = (case s_rejected s of None \<Rightarrow> s\<lparr>s_rejected := Some m\<rparr> | Some _ \<Rightarrow> s)"

text \<open>Creating the promise of one task.\<close>

fun start :: "string + request \<Rightarrow> send_state \<Rightarrow> send_state" where
  "start (Inl m) s = reject m s"
| "start (Inr r) s = s\<lparr>s_inflight := Suc (s_inflight s)\<rparr>"

text \<open>
  The callback that \<^verbatim>\<open>send\<close> hands to \<^verbatim>\<open>request.post\<close>, called with the transport's error
  (\<open>Some\<close> of its message) or with none:
  \<^verbatim>\<open>err => { if (err) reject(err); count++; resolve(); }\<close>.
  A promise that has been rejected stays rejected, so \<^verbatim>\<open>resolve()\<close> fulfils it only when
  there was no error.  A POST is answered once: with none under way there is nothing to
  answer.
\<close>

definition on_response :: "string option \<Rightarrow> send_state \<Rightarrow> send_state" where
  "on_response err s =
     (if s_inflight s = 0 then s
      else (let s1 = (case err of Some m \<Rightarrow> reject m s | None \<Rightarrow> s);
                s2 = s1\<lparr>s_count := s_count s1 + 1\<rparr>;
                s3 = (case err of Some m \<Rightarrow> s2 | None \<Rightarrow> s2\<lparr>s_fulfilled := Suc (s_fulfilled s2)\<rparr>)
            in s3\<lparr>s_inflight := s_inflight s3 - 1\<rparr>))"

text \<open>
  \<^verbatim>\<open>await Promise.all(tasks)\<close> and what follows it.  The function after the \<^verbatim>\<open>await\<close> runs
  when the job queue is drained, which happens when the running piece of code has finished:
  first the rest of \<^verbatim>\<open>send\<close> itself, then one turn of the event loop after another.  A turn
  is the list of the responses whose callbacks run in it, in order (one response for a
  transport that answers from the network; all of them in the first turn for a stub that
  calls back at once).  At each such point a rejected \<^verbatim>\<open>Promise.all\<close> passes the reason's
  message and \<^verbatim>\<open>count\<close> to the completion callback, a fulfilled one (every one of the \<open>n\<close>
  tasks fulfilled) passes null and \<^verbatim>\<open>count\<close>, and a pending one waits for the next turn.
  The result is the list of the calls of the completion callback: empty when the responses
  run out first, which is a \<^verbatim>\<open>send\<close> that never completes.
\<close>

type_synonym callback_args = "string option \<times> nat"

definition settled :: "nat \<Rightarrow> send_state \<Rightarrow> callback_args option" where
  "settled n s =
     (case s_rejected s of
        Some m \<Rightarrow> Some (Some m, s_count s)
      | None \<Rightarrow> if s_fulfilled s = n then Some (None, s_count s) else None)"

fun await_all :: "nat \<Rightarrow> send_state \<Rightarrow> string option list list \<Rightarrow> callback_args list" where
  "await_all n s [] = (case settled n s of Some args \<Rightarrow> [args] | None \<Rightarrow> [])"
| "await_all n s (turn # turns) =
     (case settled n s of
        Some args \<Rightarrow> [args]
      | None \<Rightarrow> await_all n (fold on_response turn s) turns)"

record send_result =
  posts :: "request list"
  callbacks :: "callback_args list"

definition started :: "env \<Rightarrow> Visitor \<Rightarrow> config \<Rightarrow> task list \<Rightarrow> (string + request) list" where
  "started E v c taskQueue =
     (let pathFragment = (if c_batching c then c_batchPath c else c_path c);
          path = c_hostname c @ pathFragment
      in map (executor E v path) taskQueue)"

fun issued :: "(string + request) list \<Rightarrow> request list" where
  "issued [] = []"
| "issued (Inl m # xs) = issued xs"
| "issued (Inr r # xs) = r # issued xs"

text \<open>
  \<^verbatim>\<open>send\<close>, given the turns in which the transport answers.  The completion callback is
  taken to return normally; its calls are recorded.  \<open>None\<close> is a \<^verbatim>\<open>send\<close> whose planning
  never ends.
\<close>

definition send ::
  "env \<Rightarrow> Visitor \<Rightarrow> string option list list \<Rightarrow> world \<Rightarrow> (send_result \<times> world) option" where
  "send E v turns w =
     (case getSendTaskQueue v w of
        None \<Rightarrow> None
      | Some (taskQueue, w') \<Rightarrow>
          if taskQueue = [] then Some (\<lparr>posts = [], callbacks = [(None, 0)]\<rparr>, w')
          else (let tasks = started E v (cfg w') taskQueue;
                    s0 = fold start tasks
                           \<lparr>s_count = 0, s_rejected = None, s_fulfilled = 0, s_inflight = 0\<rparr>
                in Some (\<lparr>posts = issued tasks,
                          callbacks = await_all (length taskQueue) s0 turns\<rparr>, w')))"

text \<open>\<^verbatim>\<open>enqueue\<close>: push the hit; with a callback, start a \<^verbatim>\<open>send\<close> at once.\<close>

definition enqueue ::
  "env \<Rightarrow> Visitor \<Rightarrow> MetricType \<Rightarrow> ArbitraryParams \<Rightarrow> bool \<Rightarrow> string option list list \<Rightarrow> world
     \<Rightarrow> (Visitor \<times> send_result option \<times> world) option" where
  "enqueue E v t p fn turns w =
     (let params = make_hit (cfg w) v t p;
          w1 = push_hit v params w
      in if fn then (case send E v turns w1 of
                       None \<Rightarrow> None
                     | Some (r, w2) \<Rightarrow> Some (v, Some r, w2))
         else Some (v, None, w1))"

text \<open>The argument of \<^verbatim>\<open>pageview\<close>; \<open>pv_callback\<close> tells whether a callback is given.\<close>

record pageview_args =
  pv_path :: jsval
  pv_hostname :: jsval
  pv_title :: jsval
  pv_params :: "ArbitraryParams option"
  pv_callback :: bool

text \<open>The parameters that \<^verbatim>\<open>pageview\<close> builds and tidies before it enqueues them.\<close>

definition pageviewParams :: "Visitor \<Rightarrow> pageview_args \<Rightarrow> world \<Rightarrow> ArbitraryParams" where
  "pageviewParams v args w =
     (let p0 = assign_opt (assign [] (persistents w (v_persistentParams v))) (pv_params args);
          p1 = put ''dp'' (js_or (pv_path args) (get_prop (v_context v) ''dp'')) p0;
          p2 = put ''dh'' (js_or (pv_hostname args) (get_prop (v_context v) ''dh'')) p1;
          p3 = put ''dt'' (js_or (pv_title args) (get_prop (v_context v) ''dt'')) p2
      in p3)"

definition pageview ::
  "env \<Rightarrow> Visitor \<Rightarrow> pageview_args \<Rightarrow> string option list list \<Rightarrow> world
     \<Rightarrow> (Visitor \<times> send_result option \<times> world) option" where
  "pageview E v args turns w =
     (let tidy = tidyParameters (pageviewParams v args w);
          (v', w') = withContext E v (pv_params args) w
      in enqueue E v' PAGEVIEW tidy (pv_callback args) turns w')"

section \<open>Example inputs\<close>

text \<open>Concrete collaborators, a concrete configuration and a concrete store, used where a
  statement is run on an input.  The query strings of the examples are unescaped.\<close>

fun example_text :: "jsval \<Rightarrow> string" where
  "example_text (Str s) = s"
| "example_text Null = []"
| "example_text Undefined = []"

definition example_env :: env where
  "example_env =
     \<lparr>uuid_v4 = (\<lambda>n. ''id'' @ replicate n (CHR ''+'')),
      url_host = (\<lambda>s. if s = ''https://www.google-analytics.com''
                       then Some ''www.google-analytics.com''
                       else if s = ''http://collector.test'' then Some ''collector.test''
                       else None),
      stringify = (\<lambda>h. join ''&'' (map (\<lambda>(k, x). k @ ''='' @ example_text x) h))\<rparr>"

definition example_config :: config where
  "example_config =
     \<lparr>c_hostname = ''https://www.google-analytics.com'', c_path = ''/collect'',
      c_batchPath = ''/batch'', c_batching = True, c_batchSize = 10,
      c_protocolVersion = ''1'',
      c_parametersMap = [(''documentPath'', ''dp''), (''documentTitle'', ''dt'')]\<rparr>"

definition example_world :: world where
  "example_world =
     \<lparr>cfg = example_config, queues = (\<lambda>r. []), persistents = (\<lambda>r. []),
      next_ref = 0, uuid_calls = 0\<rparr>"

definition example_visitor :: Visitor where
  "example_visitor =
     \<lparr>v_options = Some no_options, v_context = [], v_persistentParams = 0, v_queue = 1,
      v_tid = Undefined, v_cid = Str ''id'', v_uid = Undefined\<rparr>"

definition hitA :: ArbitraryParams where "hitA = [(''first'', Str ''123'')]"
definition hitB :: ArbitraryParams where "hitB = [(''second'', Str ''456'')]"
definition hitC :: ArbitraryParams where "hitC = [(''third'', Str ''789'')]"

text \<open>The store with the three hits in the example Visitor's queue.\<close>

definition world_ABC :: world where
  "world_ABC = example_world\<lparr>queues := (\<lambda>r. [])(1 := [hitA, hitB, hitC])\<rparr>"

text \<open>The same store with the batch size set to 2.\<close>

definition world_ABC2 :: world where
  "world_ABC2 = world_ABC\<lparr>cfg := example_config\<lparr>c_batchSize := 2\<rparr>\<rparr>"



text \<open>The store with batching disabled and the single hit \<^verbatim>\<open>{first: "123"}\<close> in the example
  Visitor's queue.\<close>

definition world_single :: world where
  "world_single =
     example_world\<lparr>cfg := example_config\<lparr>c_batching := False\<rparr>,
                   queues := (\<lambda>r. [])(1 := [hitA])\<rparr>"


text \<open>The queue of a Visitor in the store that a hit-recording call returns.\<close>

definition queued :: "Visitor \<Rightarrow> (Visitor \<times> send_result option \<times> world) option \<Rightarrow> ArbitraryParams list" where
  "queued v result = (case result of None \<Rightarrow> [] | Some (v', r, w) \<Rightarrow> queues w (v_queue v))"

text \<open>The store after \<^verbatim>\<open>init({})\<close> on the example store; the Visitor it returns is
  \<open>example_visitor\<close>.\<close>

definition root_world :: world where
  "root_world = snd (init example_env (Some no_options) example_world)"

text \<open>Three arguments of \<^verbatim>\<open>pageview\<close>: only the path \<^verbatim>\<open>/home\<close>; with the params
  \<^verbatim>\<open>{x: null, y: undefined, z: "v"}\<close>; with the params \<^verbatim>\<open>{dh: "example.com", dl: ...}\<close>.\<close>

definition home_args :: pageview_args where
  "home_args = \<lparr>pv_path = Str ''/home'', pv_hostname = Undefined, pv_title = Undefined,
                 pv_params = None, pv_callback = False\<rparr>"

definition xyz_args :: pageview_args where
  "xyz_args = home_args\<lparr>pv_params := Some [(''x'', Null), (''y'', Undefined), (''z'', Str ''v'')]\<rparr>"

definition dh_args :: pageview_args where
  "dh_args = home_args\<lparr>pv_params := Some [(''dh'', Str ''example.com''),
                                            (''dl'', Str ''http://example.com/home'')]\<rparr>"





section \<open>Batch planning\<close>

lemma getNextSendBatch_pos:
  "0 < b \<Longrightarrow> getNextSendBatch b xs = (take (nat b) xs, drop (nat b) xs)"
  by (cases "int (length xs) \<le> b") (simp_all add: getNextSendBatch_def splice0_def min_def)

lemma fill_buckets_pos:
  "0 < b \<Longrightarrow>
   fill_buckets n b xs q =
     (q @ map (\<lambda>i. take (nat b) (drop (i * nat b) xs)) [0..<n], drop (n * nat b) xs)"
proof (induction n arbitrary: xs q)
  case 0
  then show ?case by simp
next
  case (Suc n)
  have shift: "map (\<lambda>i. take (nat b) (drop (i * nat b) (drop (nat b) xs))) [0..<n] =
               map (\<lambda>i. take (nat b) (drop (i * nat b) xs)) [Suc 0..<Suc n]"
    by (simp add: map_Suc_upt [symmetric] add.commute del: upt_Suc)
  have "fill_buckets (Suc n) b xs q = fill_buckets n b (drop (nat b) xs) (q @ [take (nat b) xs])"
    using Suc.prems by (simp add: getNextSendBatch_pos)
  also have "\<dots> = ((q @ [take (nat b) xs]) @
                   map (\<lambda>i. take (nat b) (drop (i * nat b) (drop (nat b) xs))) [0..<n],
                   drop (n * nat b) (drop (nat b) xs))"
    using Suc.prems by (rule Suc.IH)
  also have "\<dots> = (q @ map (\<lambda>i. take (nat b) (drop (i * nat b) xs)) [0..<Suc n],
                   drop (Suc n * nat b) xs)"
    unfolding shift by (simp add: upt_conv_Cons add.commute del: upt_Suc)
  finally show ?case .
qed

lemma concat_chunks:
  "concat (map (\<lambda>i. take k (drop (i * k) xs)) [0..<n]) = take (n * k) xs"
proof (induction n)
  case 0
  then show ?case by simp
next
  case (Suc n)
  have "take (n * k) xs @ take k (drop (n * k) xs) = take (n * k + k) xs"
    by (simp add: take_add)
  with Suc show ?case by (simp add: add.commute)
qed

lemma ceil_bounds:
  fixes len :: nat and b :: int
  assumes "0 < b"
  shows "len \<le> nat (- ((- int len) div b)) * nat b"
    and "nat (- ((- int len) div b)) * nat b < len + nat b"
proof -
  define n where "n = nat (- ((- int len) div b))"
  let ?m = "(- int len) div b" and ?r = "(- int len) mod b"
  have eq: "?m * b + ?r = - int len" by simp
  have r: "0 \<le> ?r" "?r < b" using assms(1) by simp_all
  have "?m * b \<le> 0" using eq r by linarith
  then have "?m \<le> 0" using assms(1) by (simp add: mult_le_0_iff)
  then have n: "int n = - ?m" by (simp add: n_def)
  have "int (n * nat b) = - ?m * b" using n assms(1) by simp
  then have nb: "int (n * nat b) = int len + ?r" using eq by linarith
  show "len \<le> nat (- ((- int len) div b)) * nat b"
    using nb r unfolding n_def [symmetric] by linarith
  show "nat (- ((- int len) div b)) * nat b < len + nat b"
    using nb r assms(1) unfolding n_def [symmetric] by linarith
qed

lemma chunk_nonempty:
  assumes "0 < k" "n * k < len + k" "i < n" "length xs = len"
  shows "take k (drop (i * k) xs) \<noteq> []"
proof -
  have "Suc i * k \<le> n * k" using assms(3) by (intro mult_le_mono1) simp
  then have "i * k < len" using assms(1,2) by simp
  then show ?thesis using assms(1,4) by simp
qed

lemma chunk_length_inner:
  assumes "n * k < length xs + k" "Suc i < n"
  shows "length (take k (drop (i * k) xs)) = k"
proof -
  have "Suc (Suc i) * k \<le> n * k" using assms(2) by (intro mult_le_mono1) simp
  then have "i * k + k < length xs" using assms(1) by simp
  then show ?thesis by simp
qed

lemma chunk_length_last:
  assumes "0 < k" "length xs \<le> Suc i * k" "Suc i * k < length xs + k"
  shows "length (take k (drop (i * k) xs)) =
           (if length xs mod k = 0 then k else length xs mod k)"
proof -
  obtain d where d: "length xs = i * k + d" "0 < d" "d \<le> k"
    using assms by (intro that [of "length xs - i * k"]) auto
  show ?thesis
  proof (cases "d = k")
    case True
    then show ?thesis using d by simp
  next
    case False
    then have "d < k" using d by simp
    then show ?thesis using d by simp
  qed
qed

lemma plan_batches:
  assumes "c_batching c" and "0 < c_batchSize c"
  shows "\<exists>units.
           plan c xs = Some (map Batch units, [])
         \<and> int (length units) = \<lceil>real (length xs) / real_of_int (c_batchSize c)\<rceil>
         \<and> (\<forall>i < length units.
               length (units ! i) =
                 (if Suc i < length units then nat (c_batchSize c)
                  else if length xs mod nat (c_batchSize c) = 0 then nat (c_batchSize c)
                       else length xs mod nat (c_batchSize c)))
         \<and> concat units = xs"
proof -
  define b where "b = c_batchSize c"
  define k where "k = nat b"
  define n where "n = nat (- ((- int (length xs)) div b))"
  define units where "units = map (\<lambda>i. take k (drop (i * k) xs)) [0..<n]"
  have b: "0 < b" using assms(2) by (simp add: b_def)
  then have k: "0 < k" by (simp add: k_def)
  have lo: "length xs \<le> n * k" and hi: "n * k < length xs + k"
    using ceil_bounds [OF b, of "length xs"] by (simp_all add: n_def k_def)
  have nb: "nBuckets (length xs) b = Some (- ((- int (length xs)) div b))"
    using b by (simp add: nBuckets_def)
  have nonneg: "0 \<le> - ((- int (length xs)) div b)"
    using b div_nonpos_pos_le0 [of "- int (length xs)" b] by simp
  have fill: "fill_buckets n b xs [] = (units, [])"
    using fill_buckets_pos [OF b, of n xs "[]"] lo by (simp add: units_def k_def)
  have keep: "filter (\<lambda>bucket. length bucket > 0) units = units"
    unfolding units_def filter_map
    using chunk_nonempty [OF k hi _ refl] by (auto simp: filter_id_conv)
  have 1: "plan c xs = Some (map Batch units, [])"
    using assms(1) nb fill keep by (simp add: plan_def b_def [symmetric] n_def [symmetric])
  have len: "length units = n" by (simp add: units_def)
  have "int n = - ((- int (length xs)) div b)" using nonneg by (simp add: n_def)
  then have 2: "int (length units) = \<lceil>real (length xs) / real_of_int b\<rceil>"
    using ceiling_divide_eq_div [of "int (length xs)" b, where ?'a = real] len by simp
  have 3: "length (units ! i) =
             (if Suc i < length units then k
              else if length xs mod k = 0 then k else length xs mod k)"
    if "i < length units" for i
  proof (cases "Suc i < n")
    case True
    then show ?thesis
      using chunk_length_inner [OF hi True] that by (simp add: units_def)
  next
    case False
    then have "Suc i = n" using that len by simp
    then show ?thesis
      using chunk_length_last [OF k, of xs i] lo hi that len by (simp add: units_def)
  qed
  have 4: "concat units = xs"
    using lo by (simp add: units_def concat_chunks)
  show ?thesis
    using 1 2 3 4 unfolding b_def k_def by blast
qed

text \<open>
  Claim C2.  With batching enabled and a batch size \<open>B > 0\<close>, planning a queue of \<open>N\<close> hits
  returns \<open>\<lceil>N / B\<rceil>\<close> dispatch units, every unit but the last of length \<open>B\<close>, the last of
  length \<open>N mod B\<close> (or \<open>B\<close> when \<open>B\<close> divides \<open>N\<close>); the units concatenated in order are the
  queue as it was, and the queue is left empty.
\<close>

theorem planning_batches:
  assumes "c_batching (cfg w)" and "0 < c_batchSize (cfg w)"
  shows "\<exists>units.
           getSendTaskQueue v w = Some (map Batch units, w\<lparr>queues := (queues w)(v_queue v := [])\<rparr>)
         \<and> int (length units)
             = \<lceil>real (length (queues w (v_queue v))) / real_of_int (c_batchSize (cfg w))\<rceil>
         \<and> (\<forall>i < length units.
               length (units ! i) =
                 (if Suc i < length units then nat (c_batchSize (cfg w))
                  else if length (queues w (v_queue v)) mod nat (c_batchSize (cfg w)) = 0
                       then nat (c_batchSize (cfg w))
                       else length (queues w (v_queue v)) mod nat (c_batchSize (cfg w))))
         \<and> concat units = queues w (v_queue v)"
proof -
  obtain units where u: "plan (cfg w) (queues w (v_queue v)) = Some (map Batch units, [])"
    and rest: "int (length units)
             = \<lceil>real (length (queues w (v_queue v))) / real_of_int (c_batchSize (cfg w))\<rceil>"
      "\<forall>i < length units.
               length (units ! i) =
                 (if Suc i < length units then nat (c_batchSize (cfg w))
                  else if length (queues w (v_queue v)) mod nat (c_batchSize (cfg w)) = 0
                       then nat (c_batchSize (cfg w))
                       else length (queues w (v_queue v)) mod nat (c_batchSize (cfg w)))"
      "concat units = queues w (v_queue v)"
    using plan_batches [OF assms, of "queues w (v_queue v)"] by blast
  have "getSendTaskQueue v w =
          Some (map Batch units, w\<lparr>queues := (queues w)(v_queue v := [])\<rparr>)"
    using u by (simp add: getSendTaskQueue_def)
  then show ?thesis using rest by blast
qed

theorem planning_batches_witness:
  "c_batching (cfg world_ABC2) \<and> 0 < c_batchSize (cfg world_ABC2)
   \<and> (\<exists>units.
         map_option fst (getSendTaskQueue example_visitor world_ABC2) = Some (map Batch units)
       \<and> int (length units) = \<lceil>real (3::nat) / real_of_int 2\<rceil>
       \<and> concat units = [hitA, hitB, hitC])"
  using planning_batches [of world_ABC2 example_visitor]
  by (auto simp: world_ABC2_def world_ABC_def example_world_def example_config_def
      example_visitor_def)

lemma plan_empty: "plan c [] = Some ([], [])"
  by (simp add: plan_def splice0_def nBuckets_def)

lemma plan_single: "\<not> c_batching c \<Longrightarrow> plan c xs = Some (map Single xs, [])"
  by (simp add: plan_def splice0_def)

lemma concat_unit_hits_Single: "concat (map (unit_hits \<circ> Single) xs) = xs"
  by (induction xs) simp_all

lemma concat_unit_hits_Batch: "concat (map (unit_hits \<circ> Batch) bs) = concat bs"
  by (induction bs) simp_all

lemma plan_drains:
  assumes "c_batching c \<longrightarrow> 0 < c_batchSize c"
  shows "\<exists>units. plan c xs = Some (units, []) \<and> concat (map unit_hits units) = xs"
proof (cases "c_batching c")
  case True
  then obtain bs where "plan c xs = Some (map Batch bs, [])" "concat bs = xs"
    using plan_batches [of c xs] assms by blast
  then show ?thesis by (auto simp: concat_unit_hits_Batch)
next
  case False
  then show ?thesis by (auto simp: plan_single concat_unit_hits_Single)
qed

lemma world_queues_triv: "queues w r = [] \<Longrightarrow> w\<lparr>queues := (queues w)(r := [])\<rparr> = w"
  by (metis fun_upd_triv world.surjective world.update_convs(2))

lemma send_posts:
  assumes "getSendTaskQueue v w = Some (units, w')"
  shows "\<exists>r. send E v turns w = Some (r, w') \<and> posts r = issued (started E v (cfg w) units)"
proof -
  have "cfg w' = cfg w"
    using assms by (auto simp: getSendTaskQueue_def split: option.splits)
  then show ?thesis
    using assms by (simp add: send_def started_def Let_def)
qed

lemma planned_ABC2:
  "getSendTaskQueue example_visitor world_ABC2
     = Some ([Batch [hitA, hitB], Batch [hitC]],
             world_ABC2\<lparr>queues := (queues world_ABC2)(v_queue example_visitor := [])\<rparr>)"
  by (simp add: getSendTaskQueue_def plan_def nBuckets_def getNextSendBatch_def splice0_def
      world_ABC2_def world_ABC_def example_world_def example_config_def example_visitor_def
      numeral_2_eq_2)

section \<open>Sending an empty queue\<close>

text \<open>
  Claim C8.  \<^verbatim>\<open>send\<close> on an empty queue calls the completion callback exactly once, with
  the error null and the count 0, issues no POST, and leaves the store as it was.  This holds
  for every configuration, whatever the batching flag and the batch size are.
\<close>

theorem send_empty_queue:
  assumes "queues w (v_queue v) = []"
  shows "send E v turns w = Some (\<lparr>posts = [], callbacks = [(None, 0)]\<rparr>, w)"
  using assms by (simp add: send_def getSendTaskQueue_def plan_empty world_queues_triv)


theorem send_empty_queue_witness:
  "queues example_world (v_queue example_visitor) = []
   \<and> send example_env example_visitor [[None]] example_world
       = Some (\<lparr>posts = [], callbacks = [(None, 0)]\<rparr>, example_world)"
  using send_empty_queue [of example_world example_visitor example_env "[[None]]"]
  by (simp add: example_world_def)

section \<open>Draining the queue\<close>

text \<open>
  Claim C7.  \<^verbatim>\<open>send\<close> plans before anything asynchronous happens, and planning drains the
  queue: for a batching policy of the data model (batching disabled, or a positive batch
  size) the queue is empty in the store that \<^verbatim>\<open>send\<close> leaves behind, the hits of the planned
  units in order are the queue as it was when \<^verbatim>\<open>send\<close> was called, and the POSTs of this
  \<^verbatim>\<open>send\<close> are those of the planned units.  A hit pushed afterwards is alone in the queue: it
  waits for the next \<^verbatim>\<open>send\<close> and is in none of these units.
\<close>

theorem send_drains_queue:
  assumes "c_batching (cfg w) \<longrightarrow> 0 < c_batchSize (cfg w)"
  shows "\<exists>units w' r.
           getSendTaskQueue v w = Some (units, w')
         \<and> send E v turns w = Some (r, w')
         \<and> queues w' (v_queue v) = []
         \<and> concat (map unit_hits units) = queues w (v_queue v)
         \<and> posts r = issued (started E v (cfg w) units)
         \<and> (\<forall>h. queues (push_hit v h w') (v_queue v) = [h])"
proof -
  obtain units where u: "plan (cfg w) (queues w (v_queue v)) = Some (units, [])"
      "concat (map unit_hits units) = queues w (v_queue v)"
    using plan_drains [OF assms] by blast
  define w' where "w' = w\<lparr>queues := (queues w)(v_queue v := [])\<rparr>"
  have g: "getSendTaskQueue v w = Some (units, w')"
    using u(1) by (simp add: getSendTaskQueue_def w'_def)
  obtain r where r: "send E v turns w = Some (r, w')"
      "posts r = issued (started E v (cfg w) units)"
    using send_posts [OF g] by blast
  have "queues w' (v_queue v) = []" by (simp add: w'_def)
  moreover have "\<forall>h. queues (push_hit v h w') (v_queue v) = [h]"
    by (simp add: push_hit_def w'_def)
  ultimately show ?thesis using g r u(2) by blast
qed


theorem send_drains_queue_witness:
  "0 < c_batchSize (cfg world_ABC2)
   \<and> (\<exists>units w' r.
         getSendTaskQueue example_visitor world_ABC2 = Some (units, w')
       \<and> send example_env example_visitor [] world_ABC2 = Some (r, w')
       \<and> queues w' (v_queue example_visitor) = []
       \<and> concat (map unit_hits units) = queues world_ABC2 (v_queue example_visitor)
       \<and> posts r = issued (started example_env example_visitor (cfg world_ABC2) units)
       \<and> (\<forall>h. queues (push_hit example_visitor h w') (v_queue example_visitor) = [h]))"
  using send_drains_queue [of world_ABC2 example_visitor example_env "[]"]
  by (simp add: world_ABC2_def world_ABC_def example_world_def example_config_def)

text \<open>Outside the data model the queue is not drained: with batching enabled, a negative
  batch size plans no unit and leaves the queue as it is, and a batch size of zero on a
  queue that is not empty never finishes planning.\<close>

lemma plan_negative_size:
  assumes "c_batching c" and "c_batchSize c < 0"
  shows "plan c xs = Some ([], xs)"
proof -
  have "0 \<le> (- int (length xs)) div c_batchSize c"
    using assms(2) by (simp add: neg_imp_zdiv_nonneg_iff)
  then have "nat (- ((- int (length xs)) div c_batchSize c)) = 0" by simp
  then show ?thesis
    using assms by (simp add: plan_def nBuckets_def)
qed

lemma plan_zero_size:
  "c_batching c \<Longrightarrow> c_batchSize c = 0 \<Longrightarrow> xs \<noteq> [] \<Longrightarrow> plan c xs = None"
  by (simp add: plan_def nBuckets_def)

section \<open>Derived views\<close>

lemma Visitor_new_queue:
  "Visitor_new E options context pp q w = (v', w') \<Longrightarrow>
     v_queue v' = q \<and> v_persistentParams v' = pp \<and> v_options v' = options
     \<and> v_context v' = context \<and> queues w' = queues w \<and> persistents w' = persistents w"
  by (auto simp: Visitor_new_def Let_def split: option.splits if_splits)

lemma in_planned_units:
  assumes "c_batching (cfg w) \<longrightarrow> 0 < c_batchSize (cfg w)"
  shows "\<exists>units w'. getSendTaskQueue v w = Some (units, w')
           \<and> concat (map unit_hits units) = queues w (v_queue v)"
proof -
  obtain units where "plan (cfg w) (queues w (v_queue v)) = Some (units, [])"
      "concat (map unit_hits units) = queues w (v_queue v)"
    using plan_drains [OF assms] by blast
  then show ?thesis by (simp add: getSendTaskQueue_def)
qed

text \<open>The Visitor that \<^verbatim>\<open>withContext\<close> returns holds the address of its parent's queue,
  and creating it leaves every queue as it was; a hit enqueued through it is appended to the
  parent's queue and is in the units of the parent's next planning.\<close>

lemma withContext_shares_queue:
  assumes "withContext E v context w = (v', w')"
    and "c_batching (cfg w') \<longrightarrow> 0 < c_batchSize (cfg w')"
  shows "v_queue v' = v_queue v \<and> queues w' = queues w
       \<and> (\<exists>w''. enqueue E v' t p False turns w' = Some (v', None, w'')
              \<and> queues w'' (v_queue v) = queues w (v_queue v) @ [make_hit (cfg w') v' t p]
              \<and> (\<exists>units w3. getSendTaskQueue v w'' = Some (units, w3)
                     \<and> make_hit (cfg w') v' t p \<in> set (concat (map unit_hits units))))"
proof -
  have q: "v_queue v' = v_queue v" and qs: "queues w' = queues w"
    using Visitor_new_queue assms(1) unfolding withContext_def by blast+
  define w'' where "w'' = push_hit v' (make_hit (cfg w') v' t p) w'"
  have e: "enqueue E v' t p False turns w' = Some (v', None, w'')"
    by (simp add: enqueue_def w''_def Let_def)
  have c: "cfg w'' = cfg w'" by (simp add: w''_def push_hit_def)
  have a: "queues w'' (v_queue v) = queues w (v_queue v) @ [make_hit (cfg w') v' t p]"
    by (simp add: w''_def push_hit_def q qs)
  obtain units w3 where g: "getSendTaskQueue v w'' = Some (units, w3)"
    and u: "concat (map unit_hits units) = queues w'' (v_queue v)"
    using in_planned_units [of w'' v] assms(2) c by auto
  have "make_hit (cfg w') v' t p \<in> set (concat (map unit_hits units))"
    unfolding u a by simp
  then show ?thesis using q qs e a g by blast
qed

section \<open>The shared configuration\<close>

lemma plan_policy:
  "c_batching c = c_batching c' \<Longrightarrow> c_batchSize c = c_batchSize c' \<Longrightarrow> plan c xs = plan c' xs"
  by (simp add: plan_def split: option.splits)







section \<open>Aggregating the responses\<close>

lemma on_response_ok:
  "0 < s_inflight s \<Longrightarrow>
   on_response None s =
     s\<lparr>s_count := s_count s + 1, s_fulfilled := Suc (s_fulfilled s),
       s_inflight := s_inflight s - 1\<rparr>"
  by (simp add: on_response_def Let_def)

lemma fold_on_response_ok:
  "\<forall>x\<in>set t. x = None \<Longrightarrow> length t \<le> s_inflight s \<Longrightarrow>
   fold on_response t s =
     s\<lparr>s_count := s_count s + length t, s_fulfilled := s_fulfilled s + length t,
       s_inflight := s_inflight s - length t\<rparr>"
proof (induction t arbitrary: s)
  case Nil
  then show ?case by simp
next
  case (Cons x t)
  then have x: "x = None" and pos: "0 < s_inflight s" by auto
  show ?case
    using Cons.prems by (simp add: x on_response_ok [OF pos] Cons.IH)
qed

lemma on_response_count:
  "0 < s_inflight s \<Longrightarrow>
   s_count (on_response err s) = Suc (s_count s)
   \<and> s_inflight (on_response err s) = s_inflight s - 1"
  by (cases err) (simp_all add: on_response_def Let_def reject_def split: option.splits)

lemma fold_on_response_count:
  "length t \<le> s_inflight s \<Longrightarrow> s_count (fold on_response t s) = s_count s + length t"
proof (induction t arbitrary: s)
  case Nil
  then show ?case by simp
next
  case (Cons x t)
  then have pos: "0 < s_inflight s" by auto
  show ?case
    using Cons.prems on_response_count [OF pos, of x] by (simp add: Cons.IH)
qed

lemma on_response_rejected:
  "s_rejected s = Some m \<Longrightarrow> s_rejected (on_response err s) = Some m"
  by (cases err) (simp_all add: on_response_def Let_def reject_def)

lemma fold_on_response_rejected:
  "s_rejected s = Some m \<Longrightarrow> s_rejected (fold on_response t s) = Some m"
  by (induction t arbitrary: s) (simp_all add: on_response_rejected)

lemma on_response_first_error:
  "s_rejected s = None \<Longrightarrow> 0 < s_inflight s \<Longrightarrow> s_rejected (on_response (Some m) s) = Some m"
  by (simp add: on_response_def Let_def reject_def)

lemma fold_on_response_error:
  assumes "s_rejected s = None" and "\<forall>x\<in>set ok. x = None"
    and "length (ok @ Some m # rest) \<le> s_inflight s"
  shows "s_rejected (fold on_response (ok @ Some m # rest) s) = Some m"
proof -
  define s1 where "s1 = fold on_response ok s"
  have s1: "s1 = s\<lparr>s_count := s_count s + length ok, s_fulfilled := s_fulfilled s + length ok,
                   s_inflight := s_inflight s - length ok\<rparr>"
    unfolding s1_def using assms(2,3) by (intro fold_on_response_ok) simp_all
  have "s_rejected s1 = None" "0 < s_inflight s1"
    using assms(1,3) by (simp_all add: s1)
  then have "s_rejected (on_response (Some m) s1) = Some m"
    by (rule on_response_first_error)
  then show ?thesis
    by (simp add: s1_def fold_on_response_rejected)
qed

lemma await_all_settled: "settled n s = Some args \<Longrightarrow> await_all n s turns = [args]"
  by (cases turns) simp_all

lemma await_all_successes:
  assumes "s_rejected s = None" and "\<forall>x\<in>set (concat pre). x = None"
    and "length (concat pre) \<le> s_inflight s" and "s_fulfilled s + length (concat pre) < n"
  shows "await_all n s (pre @ turn # turns)
           = await_all n (fold on_response (concat pre) s) (turn # turns)"
  using assms
proof (induction pre arbitrary: s)
  case Nil
  then show ?case by simp
next
  case (Cons t pre)
  define s1 where "s1 = fold on_response t s"
  have s1: "s1 = s\<lparr>s_count := s_count s + length t, s_fulfilled := s_fulfilled s + length t,
                   s_inflight := s_inflight s - length t\<rparr>"
    unfolding s1_def using Cons.prems(2,3) by (intro fold_on_response_ok) simp_all
  have pending: "settled n s = None"
    using Cons.prems(1,4) by (simp add: settled_def)
  have "await_all n s1 (pre @ turn # turns)
          = await_all n (fold on_response (concat pre) s1) (turn # turns)"
    using Cons.prems by (intro Cons.IH) (simp_all add: s1)
  then show ?case
    using pending by (simp add: s1_def)
qed

lemma plan_batching_units:
  "c_batching c \<Longrightarrow> plan c xs = Some (units, rest) \<Longrightarrow> \<exists>bs. units = map Batch bs"
  by (auto simp: plan_def split: option.splits prod.splits)

lemma executor_Batch:
  "v_options v = Some opts \<Longrightarrow> \<exists>r. executor E v path (Batch b) = Inr r"
  by (simp add: executor_def)

lemma start_all_posted:
  assumes "\<forall>t\<in>set ts. \<exists>r. f t = Inr r"
  shows "fold start (map f ts) s = s\<lparr>s_inflight := s_inflight s + length ts\<rparr>
         \<and> length (issued (map f ts)) = length ts"
  using assms
proof (induction ts arbitrary: s)
  case Nil
  then show ?case by simp
next
  case (Cons t ts)
  then obtain r where r: "f t = Inr r" by auto
  show ?case using Cons.prems by (simp add: r Cons.IH)
qed

lemma start_batches:
  assumes "v_options v = Some opts"
  shows "fold start (map (executor E v path) (map Batch bs)) s
           = s\<lparr>s_inflight := s_inflight s + length bs\<rparr>
         \<and> length (issued (map (executor E v path) (map Batch bs))) = length bs"
  using start_all_posted [of "map Batch bs" "executor E v path" s] executor_Batch [OF assms]
  by auto

text \<open>
  Claim C4.  When a POST of a \<^verbatim>\<open>send\<close> fails, the completion callback is called once, with
  the message of the first failure that was seen, and with the number of units processed up
  to that point: every response that has arrived by the end of the turn of the first
  failure is counted, the failed one as well as the successful ones (and any further
  failure of that turn).  Here the responses before the first failure are the turns \<open>pre\<close>
  and the list \<open>ok\<close>, all of them successes; POSTs are issued when batching is enabled and
  the Visitor has an options object, and each of them is answered at most once.
\<close>

theorem first_failure_reported:
  assumes "c_batching (cfg w)" and "v_options v = Some opts"
    and "getSendTaskQueue v w = Some (units, w')"
    and "turns = pre @ (ok @ Some m # rest) # later"
    and "\<forall>x\<in>set (concat pre). x = None" and "\<forall>x\<in>set ok. x = None"
    and "length (concat pre) + length (ok @ Some m # rest) \<le> length units"
  shows "\<exists>r. send E v turns w = Some (r, w')
            \<and> callbacks r = [(Some m, length (concat pre) + length (ok @ Some m # rest))]
            \<and> length (posts r) = length units"
proof -
  obtain bs where bs: "units = map Batch bs"
    using assms(1,3) plan_batching_units
    by (fastforce simp: getSendTaskQueue_def split: option.splits)
  have ne: "units \<noteq> []" using assms(7) by auto
  define path where
    "path = c_hostname (cfg w') @ (if c_batching (cfg w') then c_batchPath (cfg w') else c_path (cfg w'))"
  define s0 where
    "s0 = fold start (map (executor E v path) units)
            \<lparr>s_count = 0, s_rejected = None, s_fulfilled = 0, s_inflight = 0\<rparr>"
  have s0: "s0 = \<lparr>s_count = 0, s_rejected = None, s_fulfilled = 0, s_inflight = length units\<rparr>"
    and np: "length (issued (map (executor E v path) units)) = length units"
    using start_batches [OF assms(2), of E path bs] by (simp_all add: s0_def bs)
  define s1 where "s1 = fold on_response (concat pre) s0"
  have s1: "s1 = s0\<lparr>s_count := s_count s0 + length (concat pre),
                    s_fulfilled := s_fulfilled s0 + length (concat pre),
                    s_inflight := s_inflight s0 - length (concat pre)\<rparr>"
    unfolding s1_def using assms(5,7) by (intro fold_on_response_ok) (simp_all add: s0)
  define s2 where "s2 = fold on_response (ok @ Some m # rest) s1"
  have room: "length (ok @ Some m # rest) \<le> s_inflight s1"
    using assms(7) by (simp add: s1 s0)
  have rej: "s_rejected s2 = Some m"
    unfolding s2_def using assms(6) room by (intro fold_on_response_error) (simp_all add: s1 s0)
  have cnt: "s_count s2 = length (concat pre) + length (ok @ Some m # rest)"
    unfolding s2_def using fold_on_response_count [OF room] by (simp add: s1 s0)
  have pending: "settled (length units) s1 = None"
    using assms(7) by (simp add: settled_def s1 s0)
  have "await_all (length units) s0 turns
          = await_all (length units) s1 ((ok @ Some m # rest) # later)"
    unfolding assms(4) s1_def using assms(5,7)
    by (intro await_all_successes) (simp_all add: s0)
  also have "\<dots> = await_all (length units) s2 later"
    using pending by (simp add: s2_def)
  also have "\<dots> = [(Some m, length (concat pre) + length (ok @ Some m # rest))]"
    using rej cnt by (intro await_all_settled) (simp add: settled_def)
  finally have cb: "await_all (length units) s0 turns
          = [(Some m, length (concat pre) + length (ok @ Some m # rest))]" .
  show ?thesis
    using assms(3) ne cb np
    by (simp add: send_def started_def Let_def s0_def path_def)
qed

theorem first_failure_reported_witness:
  "\<exists>r. send example_env example_visitor [[None], [Some ''socket hang up'']] world_ABC2
          = Some (r, world_ABC2\<lparr>queues := (queues world_ABC2)(v_queue example_visitor := [])\<rparr>)
      \<and> callbacks r = [(Some ''socket hang up'', 2)]
      \<and> length (posts r) = 2"
proof -
  have h1: "c_batching (cfg world_ABC2)"
    by (simp add: world_ABC2_def world_ABC_def example_world_def example_config_def)
  have h2: "v_options example_visitor = Some no_options"
    by (simp add: example_visitor_def)
  have h4: "[[None], [Some ''socket hang up'']]
              = [[None]] @ ([] @ Some ''socket hang up'' # []) # []"
    by simp
  have h5: "\<forall>x\<in>set (concat [[None :: string option]]). x = None" by simp
  have h6: "\<forall>x\<in>set ([] :: string option list). x = None" by simp
  have h7: "length (concat [[None :: string option]]) + length ([] @ Some ''socket hang up'' # [])
              \<le> length [Batch [hitA, hitB], Batch [hitC]]"
    by simp
  show ?thesis
    using first_failure_reported [OF h1 h2 planned_ABC2 h4 h5 h6 h7, of example_env]
    by (simp add: numeral_2_eq_2)
qed

section \<open>Sending with batching disabled\<close>

lemma issued_snoc_Inl: "issued (xs @ [Inl e]) = issued xs"
  by (induction xs rule: issued.induct) simp_all

lemma reject_twice: "reject m (reject m s) = reject m s"
  by (simp add: reject_def split: option.splits)

lemma start_all_thrown:
  assumes "ts \<noteq> []" and "\<forall>t\<in>set ts. f t = Inl m"
  shows "fold start (map f ts) s = reject m s \<and> issued (map f ts) = []"
  using assms
proof (induction ts arbitrary: s rule: rev_nonempty_induct)
  case (single t)
  then show ?case by simp
next
  case (snoc t ts)
  then show ?case by (simp add: issued_snoc_Inl reject_twice)
qed

lemma start_singles:
  assumes "v_options v = Some opts" and "hs \<noteq> []"
  shows "fold start (map (executor E v path) (map Single hs)) s
           = reject map_is_not_a_function s
         \<and> issued (map (executor E v path) (map Single hs)) = []"
  using start_all_thrown [of "map Single hs" "executor E v path" map_is_not_a_function s] assms
  by (auto simp: executor_def)

lemma send_unbatched:
  assumes "\<not> c_batching (cfg w)" and "v_options v = Some opts"
    and "queues w (v_queue v) \<noteq> []"
  shows "send E v turns w =
           Some (\<lparr>posts = [], callbacks = [(Some map_is_not_a_function, 0)]\<rparr>,
                 w\<lparr>queues := (queues w)(v_queue v := [])\<rparr>)"
proof -
  define c where "c = cfg w"
  define path where "path = c_hostname c @ c_path c"
  have g: "getSendTaskQueue v w
             = Some (map Single (queues w (v_queue v)), w\<lparr>queues := (queues w)(v_queue v := [])\<rparr>)"
    using assms(1) by (simp add: getSendTaskQueue_def plan_single)
  note st = start_singles [OF assms(2,3), of E path
      "\<lparr>s_count = 0, s_rejected = None, s_fulfilled = 0, s_inflight = 0\<rparr>"]
  have "settled n (reject map_is_not_a_function
           \<lparr>s_count = 0, s_rejected = None, s_fulfilled = 0, s_inflight = 0\<rparr>)
          = Some (Some map_is_not_a_function, 0)" for n
    by (simp add: settled_def reject_def)
  then have "await_all n (reject map_is_not_a_function
           \<lparr>s_count = 0, s_rejected = None, s_fulfilled = 0, s_inflight = 0\<rparr>) turns
          = [(Some map_is_not_a_function, 0)]" for n
    by (rule await_all_settled)
  then show ?thesis
    using assms(1,3) st
    by (simp add: send_def g started_def Let_def c_def path_def)
qed


text \<open>
  Claim C3.  With batching disabled each queued hit is to become a dispatch unit with a POST
  of its own, whose body is the query string of the hit.  In the code the unit is the hit
  object itself, \<^verbatim>\<open>getBody\<close> calls \<^verbatim>\<open>map\<close> on it, and the executor throws before
  \<^verbatim>\<open>request.post\<close> is reached.  Run on the queue that holds \<^verbatim>\<open>{first: "123"}\<close> with
  batching disabled, whatever the transport would answer, \<^verbatim>\<open>send\<close> issues no POST, calls
  the completion callback with the message of the \<^verbatim>\<open>TypeError\<close> and the count 0, and has
  taken the hit off the queue.
\<close>

theorem send_unbatched_hit_not_posted:
  "\<forall>turns. send example_env example_visitor turns world_single
     = Some (\<lparr>posts = [], callbacks = [(Some ''params.map is not a function'', 0)]\<rparr>,
             world_single\<lparr>queues := (queues world_single)(v_queue example_visitor := [])\<rparr>)"
proof -
  have h1: "\<not> c_batching (cfg world_single)"
    by (simp add: world_single_def example_world_def example_config_def)
  have h2: "v_options example_visitor = Some no_options"
    by (simp add: example_visitor_def)
  have h3: "queues world_single (v_queue example_visitor) \<noteq> []"
    by (simp add: world_single_def example_world_def example_visitor_def)
  show ?thesis
    using send_unbatched [OF h1 h2 h3, of example_env]
    by (simp add: map_is_not_a_function_def)
qed

text \<open>The same queue with batching enabled is sent in one POST with the body
  \<^verbatim>\<open>first=123\<close>, as the test of \<^verbatim>\<open>send\<close> expects.\<close>

lemma send_batched_hit_posted:
  "map_option fst
     (send example_env example_visitor [[None]]
        (world_single\<lparr>cfg := example_config\<rparr>))
     = Some \<lparr>posts = [\<lparr>r_url = ''https://www.google-analytics.com/batch'',
                        r_body = ''first=123'', r_headers = [], r_requestOptions = []\<rparr>],
             callbacks = [(None, 1)]\<rparr>"
  by (simp add: send_def getSendTaskQueue_def plan_def nBuckets_def getNextSendBatch_def
      splice0_def started_def executor_def join_def settled_def on_response_def Let_def
      world_single_def example_world_def example_config_def example_visitor_def
      example_env_def no_options_def hitA_def)

section \<open>Parameter objects\<close>

lemma get_prop_put: "get_prop (put k x obj) k' = (if k' = k then x else get_prop obj k')"
  by (simp add: get_prop_def put_def update_conv')

lemma put_entries_sub:
  "(k', x') \<in> set (put k x obj) \<Longrightarrow> (k' = k \<and> x' = x) \<or> (k', x') \<in> set obj"
  unfolding put_def by (induction obj) (auto split: if_splits)

lemma distinct_put: "distinct (map fst obj) \<Longrightarrow> distinct (map fst (put k x obj))"
  by (simp add: put_def distinct_update)

lemma distinct_assign: "distinct (map fst target) \<Longrightarrow> distinct (map fst (assign target source))"
  unfolding assign_def
  by (induction source arbitrary: target) (auto simp: distinct_put)

lemma distinct_pageviewParams: "distinct (map fst (pageviewParams v args w))"
  by (cases "pv_params args")
     (simp_all add: pageviewParams_def assign_opt_def Let_def distinct_put distinct_assign)

lemma get_prop_distinct:
  "distinct (map fst obj) \<Longrightarrow> (k, x) \<in> set obj \<Longrightarrow> get_prop obj k = x"
  by (simp add: get_prop_def)

lemma tidy_loop:
  "distinct (map fst ps) \<Longrightarrow>
   fold (\<lambda>param ps. if get_prop ps param = Null \<or> get_prop ps param = Undefined
                      then AList.delete param ps else ps) keys ps
     = filter (\<lambda>(k, x). k \<in> set keys \<longrightarrow> x \<noteq> Null \<and> x \<noteq> Undefined) ps"
proof (induction keys arbitrary: ps)
  case Nil
  then show ?case by simp
next
  case (Cons key keys)
  let ?bad = "get_prop ps key = Null \<or> get_prop ps key = Undefined"
  show ?case
  proof (cases ?bad)
    case True
    have d: "distinct (map fst (AList.delete key ps))"
      using Cons.prems by (rule distinct_delete)
    have "filter (\<lambda>(k, x). k \<in> set keys \<longrightarrow> x \<noteq> Null \<and> x \<noteq> Undefined) (AList.delete key ps)
            = filter (\<lambda>(k, x). k \<in> set (key # keys) \<longrightarrow> x \<noteq> Null \<and> x \<noteq> Undefined) ps"
      unfolding AList.delete_eq filter_filter
      using True get_prop_distinct [OF Cons.prems]
      by (intro filter_cong) auto
    then show ?thesis
      using True Cons.IH [OF d] by simp
  next
    case False
    have "filter (\<lambda>(k, x). k \<in> set keys \<longrightarrow> x \<noteq> Null \<and> x \<noteq> Undefined) ps
            = filter (\<lambda>(k, x). k \<in> set (key # keys) \<longrightarrow> x \<noteq> Null \<and> x \<noteq> Undefined) ps"
      using False get_prop_distinct [OF Cons.prems]
      by (intro filter_cong) auto
    then show ?thesis
      using False Cons.IH [OF Cons.prems] by simp
  qed
qed

lemma tidyParameters_filter:
  assumes "distinct (map fst ps)"
  shows "tidyParameters ps = filter (\<lambda>(k, x). x \<noteq> Null \<and> x \<noteq> Undefined) ps"
proof -
  have "tidyParameters ps
          = filter (\<lambda>(k, x). k \<in> set (map fst ps) \<longrightarrow> x \<noteq> Null \<and> x \<noteq> Undefined) ps"
    unfolding tidyParameters_def using assms by (rule tidy_loop)
  also have "\<dots> = filter (\<lambda>(k, x). x \<noteq> Null \<and> x \<noteq> Undefined) ps"
    by (intro filter_cong) force+
  finally show ?thesis .
qed

lemma translate_loop:
  "(k, x) \<in> set (fold (\<lambda>key translated. put (translate_key pm key) (get_prop params key) translated)
                    keys acc)
   \<Longrightarrow> (k, x) \<in> set acc \<or> (\<exists>key \<in> set keys. x = get_prop params key)"
  by (induction keys arbitrary: acc) (fastforce dest: put_entries_sub)+

lemma distinct_fold_put:
  "distinct (map fst acc) \<Longrightarrow> distinct (map fst (fold (\<lambda>key. put (f key) (g key)) keys acc))"
  by (induction keys arbitrary: acc) (simp_all add: distinct_put)

lemma distinct_translateParams: "distinct (map fst (translateParams pm params))"
  unfolding translateParams_def by (rule distinct_fold_put) simp

lemma translateParams_values:
  assumes "(k, x) \<in> set (translateParams pm params)" and "distinct (map fst params)"
  shows "\<exists>key. (key, x) \<in> set params"
proof -
  obtain key where key: "key \<in> set (map fst params)" "x = get_prop params key"
    using translate_loop [of k x pm params "map fst params" "[]"] assms(1)
    by (auto simp: translateParams_def)
  then obtain y where y: "(key, y) \<in> set params" by auto
  then have "get_prop params key = y" using assms(2) by (rule get_prop_distinct [rotated])
  then show ?thesis using key y by auto
qed

section \<open>The hit that pageview enqueues\<close>

lemma assign_entries_sub:
  "(k, x) \<in> set (assign target source) \<Longrightarrow> (k, x) \<in> set source \<or> (k, x) \<in> set target"
  unfolding assign_def
  by (induction source arbitrary: target) (auto dest: put_entries_sub)

lemma make_hit_entry:
  assumes "(k, x) \<in> set (make_hit c v t p)" and "k \<noteq> ''tid''" and "k \<noteq> ''uid''"
  shows "x = Str (c_protocolVersion c) \<or> x = v_cid v \<or> x = Str (metric_name t)
         \<or> (k, x) \<in> set (translateParams (c_parametersMap c) p)"
proof -
  have "(k, x) \<in> set (defaults c v t) \<or> (k, x) \<in> set (translateParams (c_parametersMap c) p)"
    using assms(1) unfolding make_hit_def by (rule assign_entries_sub)
  then show ?thesis
    using assms(2,3) by (auto simp: defaults_def)
qed

lemma make_hit_identity:
  "map_of (make_hit c v t p) ''tid'' = Some (v_tid v)"
  "map_of (make_hit c v t p) ''cid'' = Some (v_cid v)"
  "map_of (make_hit c v t p) ''uid'' = Some (v_uid v)"
  by (simp_all add: make_hit_def defaults_def assign_def put_def update_conv')

lemma derived_identity:
  assumes "withContext E v context w = (v1, w1)" and "v_options v = Some opts"
  shows "v_tid v1 = o_tid opts" and "v_uid v1 = o_uid opts" and "\<exists>s. v_cid v1 = Str s"
    and "v_cid v1 = (if truthy (o_cid opts) then o_cid opts else Str (uuid_v4 E (uuid_calls w)))"
proof -
  show "v_tid v1 = o_tid opts" "v_uid v1 = o_uid opts"
    using assms by (auto simp: withContext_def Visitor_new_def Let_def split: if_splits)
  show c: "v_cid v1 = (if truthy (o_cid opts) then o_cid opts else Str (uuid_v4 E (uuid_calls w)))"
    using assms by (auto simp: withContext_def Visitor_new_def Let_def split: if_splits)
  show "\<exists>s. v_cid v1 = Str s"
    unfolding c by (cases "o_cid opts") simp_all
qed

lemma pageview_unfold:
  assumes "withContext E v (pv_params args) w = (v1, w1)"
  shows "pageview E v args turns w =
           (if pv_callback args
            then map_option (\<lambda>(r, w2). (v1, Some r, w2))
                   (send E v1 turns
                      (push_hit v1 (make_hit (cfg w1) v1 PAGEVIEW
                                      (tidyParameters (pageviewParams v args w))) w1))
            else Some (v1, None,
                   push_hit v1 (make_hit (cfg w1) v1 PAGEVIEW
                                  (tidyParameters (pageviewParams v args w))) w1))"
  using assms by (simp add: pageview_def enqueue_def Let_def split: option.splits)

lemma tidy_pageviewParams_values:
  assumes "(k, x) \<in> set (translateParams pm (tidyParameters (pageviewParams v args w)))"
  shows "x \<noteq> Null \<and> x \<noteq> Undefined"
proof -
  have d: "distinct (map fst (pageviewParams v args w))"
    by (rule distinct_pageviewParams)
  have t: "tidyParameters (pageviewParams v args w)
             = filter (\<lambda>(k, x). x \<noteq> Null \<and> x \<noteq> Undefined) (pageviewParams v args w)"
    using d by (rule tidyParameters_filter)
  have "distinct (map fst (tidyParameters (pageviewParams v args w)))"
    unfolding t using d by (simp add: distinct_map_filter)
  then obtain key where "(key, x) \<in> set (tidyParameters (pageviewParams v args w))"
    using translateParams_values [OF assms] by blast
  then show ?thesis unfolding t by simp
qed

text \<open>
  Claim C5, as the code has it.  \<^verbatim>\<open>pageview\<close> pushes one hit (and with a callback sends at
  once).  For a Visitor built from an options object, no key of that hit other than \<open>tid\<close>
  and \<open>uid\<close> has the value null or undefined: the caller's null and undefined parameters
  and the named fields that were not supplied are gone.  The identity defaults are assigned
  after the parameters were tidied and are not tidied themselves: \<open>tid\<close> and \<open>uid\<close> are
  always keys of the hit, with the values of the options as they are, undefined when the
  options do not give them.
\<close>

theorem pageview_hit_sanitized:
  assumes "v_options v = Some opts"
  shows "\<exists>v1 w1 h.
           pageview E v args turns w =
             (if pv_callback args
              then map_option (\<lambda>(r, w2). (v1, Some r, w2)) (send E v1 turns (push_hit v1 h w1))
              else Some (v1, None, push_hit v1 h w1))
         \<and> v_queue v1 = v_queue v
         \<and> (\<forall>(k, x) \<in> set h. k \<noteq> ''tid'' \<and> k \<noteq> ''uid'' \<longrightarrow> x \<noteq> Null \<and> x \<noteq> Undefined)
         \<and> map_of h ''tid'' = Some (o_tid opts) \<and> map_of h ''uid'' = Some (o_uid opts)"
proof -
  obtain v1 w1 where wc: "withContext E v (pv_params args) w = (v1, w1)"
    by (cases "withContext E v (pv_params args) w")
  define h where
    "h = make_hit (cfg w1) v1 PAGEVIEW (tidyParameters (pageviewParams v args w))"
  note id = derived_identity [OF wc assms]
  have 1: "pageview E v args turns w =
             (if pv_callback args
              then map_option (\<lambda>(r, w2). (v1, Some r, w2)) (send E v1 turns (push_hit v1 h w1))
              else Some (v1, None, push_hit v1 h w1))"
    unfolding h_def by (rule pageview_unfold [OF wc])
  have 2: "v_queue v1 = v_queue v"
    using wc Visitor_new_queue unfolding withContext_def by blast
  have 3: "x \<noteq> Null \<and> x \<noteq> Undefined"
    if "(k, x) \<in> set h" "k \<noteq> ''tid''" "k \<noteq> ''uid''" for k x
    using make_hit_entry [OF that(1) [unfolded h_def] that(2,3)] id(3)
      tidy_pageviewParams_values [of k x "c_parametersMap (cfg w1)" v args w]
    by auto
  have 4: "map_of h ''tid'' = Some (o_tid opts)" "map_of h ''uid'' = Some (o_uid opts)"
    by (simp_all add: h_def make_hit_identity id)
  show ?thesis
    using 1 2 3 4 by blast
qed


lemma init_example:
  "init example_env (Some no_options) example_world = (example_visitor, root_world)"
  by (simp add: root_world_def init_def Visitor_new_def configure_def Let_def example_visitor_def
      example_world_def example_env_def example_config_def no_options_def host_text_def)

lemma root_world_simps:
  "cfg root_world = example_config" "uuid_calls root_world = 1"
  "queues root_world 1 = []" "queues root_world (Suc 0) = []" "persistents root_world 0 = []"
  by (simp_all add: root_world_def init_def Visitor_new_def configure_def Let_def
      example_world_def example_env_def example_config_def no_options_def host_text_def)

lemma withContext_root:
  "withContext example_env example_visitor ctx root_world
     = (example_visitor\<lparr>v_context := (case ctx of None \<Rightarrow> [] | Some c \<Rightarrow> c), v_cid := Str ''id+''\<rparr>,
        root_world\<lparr>uuid_calls := 2\<rparr>)"
  by (simp add: withContext_def Visitor_new_def configure_def Let_def root_world_simps
      example_visitor_def example_env_def example_config_def no_options_def host_text_def)

lemma pageview_root:
  assumes "\<not> pv_callback args"
  shows "queued example_visitor (pageview example_env example_visitor args turns root_world)
           = [make_hit example_config (example_visitor\<lparr>v_cid := Str ''id+''\<rparr>) PAGEVIEW
                (tidyParameters (pageviewParams example_visitor args root_world))]"
proof -
  have "pageview example_env example_visitor args turns root_world
          = Some (example_visitor\<lparr>v_context := (case pv_params args of None \<Rightarrow> [] | Some c \<Rightarrow> c),
                                  v_cid := Str ''id+''\<rparr>, None,
                  push_hit (example_visitor\<lparr>v_context := (case pv_params args of None \<Rightarrow> [] | Some c \<Rightarrow> c),
                                            v_cid := Str ''id+''\<rparr>)
                    (make_hit (cfg (root_world\<lparr>uuid_calls := 2\<rparr>))
                       (example_visitor\<lparr>v_context := (case pv_params args of None \<Rightarrow> [] | Some c \<Rightarrow> c),
                                        v_cid := Str ''id+''\<rparr>) PAGEVIEW
                       (tidyParameters (pageviewParams example_visitor args root_world)))
                    (root_world\<lparr>uuid_calls := 2\<rparr>))"
    using assms by (simp add: pageview_unfold [OF withContext_root])
  then show ?thesis
    by (simp add: queued_def push_hit_def root_world_simps example_visitor_def make_hit_def
        defaults_def)
qed

lemmas eval_params =
  pageviewParams_def assign_opt_def assign_def put_def js_or_def get_prop_def
  tidyParameters_def translateParams_def translate_key_def make_hit_def defaults_def
  Let_def root_world_simps example_visitor_def example_config_def

theorem pageview_hit_sanitized_witness:
  "v_options example_visitor = Some no_options
   \<and> (\<exists>v1 w1 h.
         pageview example_env example_visitor xyz_args [] root_world
           = Some (v1, None, push_hit v1 h w1)
       \<and> v_queue v1 = v_queue example_visitor
       \<and> map_of h ''tid'' = Some Undefined \<and> map_of h ''uid'' = Some Undefined)"
proof -
  have h: "v_options example_visitor = Some no_options"
    by (simp add: example_visitor_def)
  have a: "\<not> pv_callback xyz_args" "o_tid no_options = Undefined" "o_uid no_options = Undefined"
    by (simp_all add: xyz_args_def home_args_def no_options_def)
  obtain v1 w1 h' where
    "pageview example_env example_visitor xyz_args [] root_world
       = (if pv_callback xyz_args
          then map_option (\<lambda>(r, w2). (v1, Some r, w2)) (send example_env v1 [] (push_hit v1 h' w1))
          else Some (v1, None, push_hit v1 h' w1))"
    "v_queue v1 = v_queue example_visitor"
    "map_of h' ''tid'' = Some (o_tid no_options)" "map_of h' ''uid'' = Some (o_uid no_options)"
    using pageview_hit_sanitized [OF h, of example_env xyz_args "[]" root_world] by blast
  then have "pageview example_env example_visitor xyz_args [] root_world
       = Some (v1, None, push_hit v1 h' w1)
     \<and> v_queue v1 = v_queue example_visitor
       \<and> map_of h' ''tid'' = Some Undefined \<and> map_of h' ''uid'' = Some Undefined"
    using a by simp
  then show ?thesis using h by blast
qed


text \<open>
  The hit of \<^verbatim>\<open>pageview({path: "/home", params: {x: null, y: undefined, z: "v"}})\<close> on
  the Visitor of \<^verbatim>\<open>init({})\<close>: \<open>x\<close> and \<open>y\<close> are gone, and the key \<open>uid\<close> is there with the value
  undefined (as is \<open>tid\<close>).
\<close>

theorem pageview_hit_undefined_uid:
  "queued example_visitor (pageview example_env example_visitor xyz_args [] root_world)
     = [[(''z'', Str ''v''), (''dp'', Str ''/home''), (''v'', Str ''1''),
         (''tid'', Undefined), (''cid'', Str ''id+''), (''uid'', Undefined),
         (''t'', Str ''pageview'')]]
   \<and> map_of [(''z'', Str ''v''), (''dp'', Str ''/home''), (''v'', Str ''1''),
         (''tid'', Undefined), (''cid'', Str ''id+''), (''uid'', Undefined),
         (''t'', Str ''pageview'')] ''uid'' = Some Undefined"
proof -
  have n: "\<not> pv_callback xyz_args" by (simp add: xyz_args_def home_args_def)
  show ?thesis
    unfolding pageview_root [OF n] by (simp add: xyz_args_def home_args_def eval_params)
qed

section \<open>The client id of a hit\<close>

lemma init_cid:
  assumes "\<not> truthy (o_cid opts)" and "init E (Some opts) w = (v0, w0)"
  shows "v_cid v0 = Str (uuid_v4 E (uuid_calls w)) \<and> uuid_calls w0 = Suc (uuid_calls w)
         \<and> v_options v0 = Some opts"
  using assms by (auto simp: init_def Visitor_new_def Let_def)

lemma pageview_cid_fresh:
  assumes "v_options v = Some opts" and "\<not> truthy (o_cid opts)" and "\<not> pv_callback args"
  shows "\<exists>v1 h w1. pageview E v args turns w = Some (v1, None, w1)
           \<and> queues w1 (v_queue v) = queues w (v_queue v) @ [h]
           \<and> map_of h ''cid'' = Some (Str (uuid_v4 E (uuid_calls w)))
           \<and> uuid_calls w1 = Suc (uuid_calls w)"
proof -
  obtain v1 w0 where wc: "withContext E v (pv_params args) w = (v1, w0)"
    by (cases "withContext E v (pv_params args) w")
  define h where
    "h = make_hit (cfg w0) v1 PAGEVIEW (tidyParameters (pageviewParams v args w))"
  have q: "v_queue v1 = v_queue v" "queues w0 = queues w"
    using wc Visitor_new_queue unfolding withContext_def by blast+
  have u: "uuid_calls w0 = Suc (uuid_calls w)"
    using wc assms(1,2) by (auto simp: withContext_def Visitor_new_def Let_def)
  have "v_cid v1 = Str (uuid_v4 E (uuid_calls w))"
    using derived_identity(4) [OF wc assms(1)] assms(2) by simp
  then have c: "map_of h ''cid'' = Some (Str (uuid_v4 E (uuid_calls w)))"
    by (simp add: h_def make_hit_identity)
  have "pageview E v args turns w = Some (v1, None, push_hit v1 h w0)"
    using pageview_unfold [OF wc] assms(3) by (simp add: h_def)
  moreover have "queues (push_hit v1 h w0) (v_queue v) = queues w (v_queue v) @ [h]"
    by (simp add: push_hit_def q)
  moreover have "uuid_calls (push_hit v1 h w0) = Suc (uuid_calls w)"
    by (simp add: push_hit_def u)
  ultimately show ?thesis using c by blast
qed

text \<open>
  Claim C1.  A Visitor built without a \<^verbatim>\<open>cid\<close> is to generate its client id once, and
  every hit recorded through it is to carry that id.  In the code every \<^verbatim>\<open>pageview\<close> goes
  through \<^verbatim>\<open>withContext\<close>, whose new Visitor is built from the same options and so
  generates an id of its own.  Run on the example store, where \<^verbatim>\<open>uuid.v4()\<close> returns
  \<^verbatim>\<open>id\<close>, \<^verbatim>\<open>id+\<close>, ... in turn: \<^verbatim>\<open>init({})\<close> returns a Visitor with the client id
  \<^verbatim>\<open>id\<close>, and the hit of its \<^verbatim>\<open>pageview({path: "/home"})\<close> has the \<open>cid\<close> \<^verbatim>\<open>id+\<close>.
\<close>

theorem pageview_hit_cid_differs:
  "init example_env (Some no_options) example_world = (example_visitor, root_world)
   \<and> v_cid example_visitor = Str ''id''
   \<and> queued example_visitor (pageview example_env example_visitor home_args [] root_world)
       = [[(''dp'', Str ''/home''), (''v'', Str ''1''), (''tid'', Undefined),
           (''cid'', Str ''id+''), (''uid'', Undefined), (''t'', Str ''pageview'')]]"
proof -
  have n: "\<not> pv_callback home_args" by (simp add: home_args_def)
  have "queued example_visitor (pageview example_env example_visitor home_args [] root_world)
       = [[(''dp'', Str ''/home''), (''v'', Str ''1''), (''tid'', Undefined),
           (''cid'', Str ''id+''), (''uid'', Undefined), (''t'', Str ''pageview'')]]"
    unfolding pageview_root [OF n] by (simp add: home_args_def eval_params)
  then show ?thesis
    by (simp add: init_example example_visitor_def)
qed

section \<open>Named fields and params\<close>

lemma pageview_params_hostname_dropped:
  assumes "\<not> truthy (pv_hostname args)" and "get_prop (v_context v) ''dh'' = Undefined"
  shows "map_of (tidyParameters (pageviewParams v args w)) ''dh'' = None"
proof -
  let ?pp = "pageviewParams v args w"
  have d: "distinct (map fst ?pp)" by (rule distinct_pageviewParams)
  have "get_prop ?pp ''dh'' = Undefined"
    using assms by (simp add: pageviewParams_def Let_def get_prop_put js_or_def)
  then have "x = Undefined" if "(''dh'', x) \<in> set ?pp" for x
    using get_prop_distinct [OF d that] by simp
  then have "''dh'' \<notin> fst ` set (filter (\<lambda>(k, x). x \<noteq> Null \<and> x \<noteq> Undefined) ?pp)"
    by auto
  then show ?thesis
    unfolding tidyParameters_filter [OF d] by (simp add: map_of_eq_None_iff)
qed


text \<open>
  Claim C6.  \<^verbatim>\<open>pageview\<close> merges the persistent parameters, then the caller's params, then
  the named fields \<open>path\<close>, \<open>hostname\<close>, \<open>title\<close> under the keys \<open>dp\<close>, \<open>dh\<close>, \<open>dt\<close>; a
  value that the params give for one of these keys is to survive when the named field is
  not supplied.  In the code the three keys are always written, with the named field or
  else the Visitor's context, never the params.  Run on the Visitor of \<^verbatim>\<open>init({})\<close> with
  \<^verbatim>\<open>pageview({path: "/home", params: {dh: "example.com", dl: "http://example.com/home"}})\<close>:
  the hit keeps \<open>dl\<close> and has no key \<open>dh\<close>.
\<close>

theorem pageview_drops_params_hostname:
  "queued example_visitor (pageview example_env example_visitor dh_args [] root_world)
     = [[(''dl'', Str ''http://example.com/home''), (''dp'', Str ''/home''), (''v'', Str ''1''),
         (''tid'', Undefined), (''cid'', Str ''id+''), (''uid'', Undefined),
         (''t'', Str ''pageview'')]]"
proof -
  have n: "\<not> pv_callback dh_args" by (simp add: dh_args_def home_args_def)
  show ?thesis
    unfolding pageview_root [OF n] by (simp add: dh_args_def home_args_def eval_params)
qed

section \<open>A hit of a derived view in the parent's next send\<close>




text \<open>With batching enabled the hit that a derived view enqueued is sent by the parent's next
  \<^verbatim>\<open>send\<close>: it is one of the hits in the body of one of the POSTs.\<close>

lemma hit_in_posted_body:
  assumes "v_options v = Some opts" and "b \<in> set bs"
  shows "\<exists>x\<in>set (issued (map (executor E v path) (map Batch bs))).
           r_url x = path \<and> r_body x = join [CHR 0x0A] (map (stringify E) b)"
  using assms(2)
proof (induction bs)
  case Nil
  then show ?case by simp
next
  case (Cons a bs)
  then show ?case using assms(1) by (auto simp: executor_def)
qed

lemma derived_hit_posted:
  assumes "withContext E v context w = (v', w')"
    and "c_batching (cfg w')" and "0 < c_batchSize (cfg w')" and "v_options v = Some opts"
  shows "\<exists>w'' r w3 x hs.
           enqueue E v' t p False turns w' = Some (v', None, w'')
         \<and> send E v turns' w'' = Some (r, w3)
         \<and> x \<in> set (posts r)
         \<and> r_body x = join [CHR 0x0A] (map (stringify E) hs)
         \<and> make_hit (cfg w') v' t p \<in> set hs"
proof -
  let ?h = "make_hit (cfg w') v' t p"
  have q: "v_queue v' = v_queue v"
    using Visitor_new_queue assms(1) unfolding withContext_def by blast
  define w'' where "w'' = push_hit v' ?h w'"
  have e: "enqueue E v' t p False turns w' = Some (v', None, w'')"
    by (simp add: enqueue_def w''_def Let_def)
  have c: "cfg w'' = cfg w'" by (simp add: w''_def push_hit_def)
  have a: "queues w'' (v_queue v) = queues w' (v_queue v) @ [?h]"
    by (simp add: w''_def push_hit_def q)
  obtain bs where pl: "plan (cfg w'') (queues w'' (v_queue v)) = Some (map Batch bs, [])"
    and cc: "concat bs = queues w'' (v_queue v)"
    using plan_batches [of "cfg w''" "queues w'' (v_queue v)"] assms(2,3) c by auto
  define w3 where "w3 = w''\<lparr>queues := (queues w'')(v_queue v := [])\<rparr>"
  have g: "getSendTaskQueue v w'' = Some (map Batch bs, w3)"
    using pl by (simp add: getSendTaskQueue_def w3_def)
  obtain r where r: "send E v turns' w'' = Some (r, w3)"
      "posts r = issued (started E v (cfg w'') (map Batch bs))"
    using send_posts [OF g] by blast
  have "?h \<in> set (concat bs)" unfolding cc a by simp
  then obtain b where b: "b \<in> set bs" "?h \<in> set b" by auto
  obtain x where "x \<in> set (posts r)" "r_body x = join [CHR 0x0A] (map (stringify E) b)"
    using hit_in_posted_body [OF assms(4) b(1), of E] r(2)
    by (auto simp: started_def Let_def)
  then show ?thesis using e r(1) b(2) by blast
qed


end
